theory Spec2Isabelle
  imports Complex_Main "HOL-Library.Log_Nat" "HOL-Library.Multiset"
begin

section \<open>The JavaScript primitives the storage layer relies on\<close>

subsection \<open>Numbers\<close>

text \<open>
  A JavaScript number is an IEEE-754 double. The finite doubles are modelled as the
  rationals they denote, and every arithmetic operation rounds its exact result to the
  nearest value with a 53-bit significand, ties to even. The exponent range is left
  unbounded: the quantities of this program (millisecond timestamps of magnitude at most
  8.64e15, array lengths below 2^32, and sums, differences and quotients of them) stay far
  inside the normal range, so neither overflow nor gradual underflow is reached.
\<close>

definition ilog2 :: "rat \<Rightarrow> int" where
  \<comment> \<open>the binary exponent of a non-zero value: \<open>2 powi (ilog2 q) \<le> \<bar>q\<bar> < 2 powi (ilog2 q + 1)\<close>\<close>
  "ilog2 q =
     (let (a, b) = quotient_of \<bar>q\<bar>; k = bitlen a - bitlen b
      in if 2 powi k \<le> \<bar>q\<bar> then k else k - 1)"

definition roundTiesToEven :: "rat \<Rightarrow> int" where
  "roundTiesToEven x =
     (let f = \<lfloor>x\<rfloor>; d = x - of_int f
      in if d < 1 / 2 then f else if 1 / 2 < d then f + 1 else if even f then f else f + 1)"

definition fl :: "rat \<Rightarrow> rat" where
  "fl q =
     (if q = 0 then 0
      else let p = ilog2 q - 52 in of_int (roundTiesToEven (q / 2 powi p)) * 2 powi p)"

definition num_add :: "rat \<Rightarrow> rat \<Rightarrow> rat" where
  "num_add x y = fl (x + y)"

definition num_sub :: "rat \<Rightarrow> rat \<Rightarrow> rat" where
  "num_sub x y = fl (x - y)"

definition num_div :: "rat \<Rightarrow> rat \<Rightarrow> rat" where
  \<comment> \<open>only used with a non-zero divisor\<close>
  "num_div x y = fl (x / y)"

subsection \<open>Dates\<close>

text \<open>
  A valid \<open>Date\<close> is its time value, an integral number of milliseconds since the
  epoch; the timestamp columns are \<open>NOT NULL\<close>, so every date read from a row is valid.
  \<open>new Date(d)\<close> of a date copies it and \<open>getTime\<close> reads the time value as a
  number. \<open>new Date(v)\<close> of a number truncates it towards zero when its magnitude is at
  most 8.64e15, and is the invalid date (\<open>None\<close>) beyond.
\<close>

type_synonym date = int

definition getTime :: "date \<Rightarrow> rat" where
  "getTime d = of_int d"

definition newDate :: "rat \<Rightarrow> date option" where
  "newDate v =
     (if \<bar>v\<bar> \<le> 8640000000000000 then Some (if 0 \<le> v then \<lfloor>v\<rfloor> else \<lceil>v\<rceil>) else None)"

subsection \<open>Array.prototype.sort\<close>

text \<open>
  \<open>xs.sort(comparefn)\<close> is a stable sort (ECMAScript 2019): with a consistent
  comparison function its result is the one of inserting the elements from the right,
  each before the first element it does not compare greater than.
\<close>

fun insort_by :: "('a \<Rightarrow> 'a \<Rightarrow> rat) \<Rightarrow> 'a \<Rightarrow> 'a list \<Rightarrow> 'a list" where
  "insort_by cmp x [] = [x]"
| "insort_by cmp x (y # ys) =
     (if cmp x y \<le> 0 then x # y # ys else y # insort_by cmp x ys)"

definition array_sort :: "('a \<Rightarrow> 'a \<Rightarrow> rat) \<Rightarrow> 'a list \<Rightarrow> 'a list" where
  "array_sort cmp xs = foldr (insort_by cmp) xs []"

subsection \<open>Map\<close>

text \<open>
  A \<open>Map\<close> iterates in insertion order: it is the list of its entries. \<open>set\<close>
  replaces the value of a key that is present, in place, and appends a new key.
\<close>

type_synonym ('k, 'v) js_map = "('k \<times> 'v) list"

fun map_get :: "('k, 'v) js_map \<Rightarrow> 'k \<Rightarrow> 'v option" where
  "map_get [] k = None"
| "map_get ((k', v) # m) k = (if k' = k then Some v else map_get m k)"

definition map_has :: "('k, 'v) js_map \<Rightarrow> 'k \<Rightarrow> bool" where
  "map_has m k = (map_get m k \<noteq> None)"

fun map_set :: "('k, 'v) js_map \<Rightarrow> 'k \<Rightarrow> 'v \<Rightarrow> ('k, 'v) js_map" where
  "map_set [] k v = [(k, v)]"
| "map_set ((k', v') # m) k v = (if k' = k then (k, v) # m else (k', v') # map_set m k v)"

section \<open>The rows read by \<open>getUnitRankings\<close>\<close>

text \<open>
  A row of \<open>assignments\<close> (\<open>db.select().from(assignments)\<close>), and a row of the
  join of \<open>completedAssignments\<close> with \<open>users\<close> and \<open>assignments\<close> as the second
  query selects it. Field names carry the row's prefix, since records cannot share them.
\<close>

record assignment =
  a_id :: int
  a_title :: string
  a_description :: string
  a_deadline :: date
  a_fileUrl :: "string option"
  a_unitCode :: string
  a_userId :: int
  a_createdAt :: date

record userCompletion =
  uc_userId :: int
  uc_name :: string
  uc_profileImageUrl :: "string option"
  uc_assignmentId :: int
  uc_completedAt :: date

text \<open>An element of \<open>userData.completions\<close>, and a value of \<open>userCompletionMap\<close>.\<close>

record completion =
  c_assignmentId :: int
  c_completedAt :: date
  c_createdAt :: date
  c_title :: string
  c_completionTime :: string

record userData =
  ud_userId :: int
  ud_name :: string
  ud_profileImageUrl :: "string option"
  ud_completions :: "completion list"

text \<open>
  An element of \<open>rankings\<close>. \<open>position\<close> is not a property of the object literal that
  is pushed: it is absent (\<open>None\<close>) until the last loop assigns it.
\<close>

record ranking =
  userId :: int
  name :: string
  profileImageUrl :: "string option"
  completedAssignments :: nat
  averageCompletionTime :: string
  totalMilliseconds :: rat
  recentCompletions :: "completion list"
  overallRank :: nat
  position :: "nat option"

datatype error = TypeError | RangeError

section \<open>\<open>getUnitRankings\<close>\<close>

text \<open>
  \<open>formatDistance\<close> of date-fns is not part of the repository: on two valid dates it
  is a parameter \<open>fd\<close>, and on an invalid date it throws a \<open>RangeError\<close>.
\<close>

type_synonym formatDistance = "date \<Rightarrow> date \<Rightarrow> string"

definition formatDistanceOf :: "formatDistance \<Rightarrow> date option \<Rightarrow> date option \<Rightarrow> error + string" where
  "formatDistanceOf fd d1 d2 =
     (case d1 of
        None \<Rightarrow> Inl RangeError
      | Some t1 \<Rightarrow> (case d2 of None \<Rightarrow> Inl RangeError | Some t2 \<Rightarrow> Inr (fd t1 t2)))"

text \<open>
  The body of \<open>for (const completion of userCompletions)\<close>: \<open>find\<close> returns the first
  assignment with the completion's id, and \<open>continue\<close> leaves the map as it is. Reading
  \<open>completions\<close> of an absent map value would throw a \<open>TypeError\<close>. \<open>push\<close>
  mutates the object held by the map, which is a \<open>set\<close> of the changed object under
  its key.
\<close>

definition groupStep ::
  "formatDistance \<Rightarrow> assignment list \<Rightarrow> userCompletion \<Rightarrow> (int, userData) js_map
     \<Rightarrow> error + (int, userData) js_map" where
  "groupStep fd unitAssignments completion userCompletionMap =
     (case find (\<lambda>a. a_id a = uc_assignmentId completion) unitAssignments of
        None \<Rightarrow> Inr userCompletionMap
      | Some assignment \<Rightarrow>
          let completionTime = fd (uc_completedAt completion) (a_createdAt assignment);
              m1 = (if \<not> map_has userCompletionMap (uc_userId completion)
                    then map_set userCompletionMap (uc_userId completion)
                           \<lparr>ud_userId = uc_userId completion,
                            ud_name = uc_name completion,
                            ud_profileImageUrl = uc_profileImageUrl completion,
                            ud_completions = []\<rparr>
                    else userCompletionMap)
          in (case map_get m1 (uc_userId completion) of
                None \<Rightarrow> Inl TypeError
              | Some userData \<Rightarrow>
                  Inr (map_set m1 (uc_userId completion)
                         (userData\<lparr>ud_completions := ud_completions userData @
                            [\<lparr>c_assignmentId = uc_assignmentId completion,
                              c_completedAt = uc_completedAt completion,
                              c_createdAt = a_createdAt assignment,
                              c_title = a_title assignment,
                              c_completionTime = completionTime\<rparr>]\<rparr>))))"

fun groupLoop ::
  "formatDistance \<Rightarrow> assignment list \<Rightarrow> userCompletion list \<Rightarrow> (int, userData) js_map
     \<Rightarrow> error + (int, userData) js_map" where
  "groupLoop fd unitAssignments [] m = Inr m"
| "groupLoop fd unitAssignments (completion # rest) m =
     (case groupStep fd unitAssignments completion m of
        Inl e \<Rightarrow> Inl e
      | Inr m' \<Rightarrow> groupLoop fd unitAssignments rest m')"

text \<open>
  The callback of \<open>userCompletionMap.forEach\<close>: the entry pushed for one user. The
  average of latencies can lie outside the range of time values although every timestamp
  is valid; \<open>formatDistance(new Date(0), new Date(avgTimeMs))\<close> then throws.
\<close>

definition totalTimeMs :: "completion list \<Rightarrow> rat" where
  "totalTimeMs cs =
     foldl (\<lambda>sum c. num_add sum (num_sub (getTime (c_completedAt c)) (getTime (c_createdAt c))))
       0 cs"

definition recentCompare :: "completion \<Rightarrow> completion \<Rightarrow> rat" where
  "recentCompare a b = num_sub (getTime (c_completedAt b)) (getTime (c_completedAt a))"

definition rankingOf :: "formatDistance \<Rightarrow> userData \<Rightarrow> error + ranking" where
  "rankingOf fd ud =
     (let avgTimeMs = (if length (ud_completions ud) > 0
                       then num_div (totalTimeMs (ud_completions ud))
                              (of_nat (length (ud_completions ud)))
                       else 0)
      in (case formatDistanceOf fd (newDate 0) (newDate avgTimeMs) of
            Inl e \<Rightarrow> Inl e
          | Inr formatted \<Rightarrow>
              Inr \<lparr>userId = ud_userId ud,
                   name = ud_name ud,
                   profileImageUrl = ud_profileImageUrl ud,
                   completedAssignments = length (ud_completions ud),
                   averageCompletionTime = formatted,
                   totalMilliseconds = avgTimeMs,
                   recentCompletions = take 3 (array_sort recentCompare (ud_completions ud)),
                   overallRank = 0,
                   position = None\<rparr>))"

text \<open>
  \<open>userCompletionMap.forEach\<close> itself, over the entries in insertion order: a throw of
  the callback ends it.
\<close>

fun pushRankings :: "formatDistance \<Rightarrow> (int, userData) js_map \<Rightarrow> error + ranking list" where
  "pushRankings fd [] = Inr []"
| "pushRankings fd ((k, userData) # rest) =
     (case rankingOf fd userData of
        Inl e \<Rightarrow> Inl e
      | Inr ranking \<Rightarrow>
          (case pushRankings fd rest of
             Inl e \<Rightarrow> Inl e
           | Inr rankings \<Rightarrow> Inr (ranking # rankings)))"

definition rankCompare :: "ranking \<Rightarrow> ranking \<Rightarrow> rat" where
  "rankCompare a b = num_sub (totalMilliseconds a) (totalMilliseconds b)"

text \<open>The callback of \<open>rankings.forEach((ranking, index) => ...)\<close>, over the indexes.\<close>

fun assignPositions :: "nat \<Rightarrow> ranking list \<Rightarrow> ranking list" where
  "assignPositions index [] = []"
| "assignPositions index (ranking # rest) =
     ranking\<lparr>position := Some (index + 1), overallRank := index + 1\<rparr>
       # assignPositions (index + 1) rest"

text \<open>
  The function, of the results of its two queries: \<open>unitAssignments\<close> and
  \<open>userCompletions\<close>.
\<close>

definition getUnitRankings ::
  "formatDistance \<Rightarrow> assignment list \<Rightarrow> userCompletion list \<Rightarrow> error + ranking list" where
  "getUnitRankings fd unitAssignments userCompletions =
     (if length unitAssignments = 0 then Inr []
      else (case groupLoop fd unitAssignments userCompletions [] of
              Inl e \<Rightarrow> Inl e
            | Inr userCompletionMap \<Rightarrow>
                (case pushRankings fd userCompletionMap of
                   Inl e \<Rightarrow> Inl e
                 | Inr rankings \<Rightarrow>
                     Inr (assignPositions 0 (array_sort rankCompare rankings)))))"

section \<open>The tables, and the operations that write\<close>

text \<open>
  The rows of \<open>users\<close> and \<open>completed_assignments\<close> as the schema declares them, and
  the database as the three tables the ranking reads together with the sequence behind the
  serial key of \<open>completed_assignments\<close>. A table is the list of its rows.
\<close>

record user =
  u_id :: int
  u_name :: string
  u_admissionNumber :: string
  u_password :: string
  u_profileImageUrl :: "string option"
  u_rank :: "int option"
  u_role :: "string option"

record completedAssignment =
  ca_id :: int
  ca_assignmentId :: int
  ca_userId :: int
  ca_completedAt :: date

record database =
  db_users :: "user list"
  db_assignments :: "assignment list"
  db_completedAssignments :: "completedAssignment list"
  db_completedAssignments_id_seq :: int

text \<open>
  \<open>db.insert(completedAssignments).values(...).returning()\<close>. The columns are
  \<open>integer\<close>: a reference outside the range of a 32-bit integer is rejected before
  anything runs, and so is the insert once the sequence of the serial key is exhausted;
  neither changes the database. The table declares a serial primary key and two foreign
  keys; unlike \<open>user_note_views\<close> and \<open>user_paper_views\<close> it declares no unique index
  on the pair of its references, so nothing else is checked. The key is drawn from the
  sequence before the foreign keys are checked, and an insert they reject does not give it
  back.
\<close>

datatype db_error = ForeignKeyViolation | NumericValueOutOfRange | SequenceLimitExceeded

definition int4 :: "int \<Rightarrow> bool" where
  "int4 i \<longleftrightarrow> - 2147483648 \<le> i \<and> i \<le> 2147483647"

definition insertCompletedAssignment ::
  "int \<Rightarrow> int \<Rightarrow> date \<Rightarrow> database \<Rightarrow> (db_error + completedAssignment) \<times> database" where
  "insertCompletedAssignment assignmentId userId' completedAt db =
     (if \<not> int4 assignmentId \<or> \<not> int4 userId' then (Inl NumericValueOutOfRange, db)
      else if \<not> int4 (db_completedAssignments_id_seq db) then (Inl SequenceLimitExceeded, db)
      else
        let completion = \<lparr>ca_id = db_completedAssignments_id_seq db,
                            ca_assignmentId = assignmentId, ca_userId = userId',
                            ca_completedAt = completedAt\<rparr>;
            db1 = db\<lparr>db_completedAssignments_id_seq := db_completedAssignments_id_seq db + 1\<rparr>
        in if assignmentId \<notin> a_id ` set (db_assignments db) \<or> userId' \<notin> u_id ` set (db_users db)
           then (Inl ForeignKeyViolation, db1)
           else (Inr completion,
                 db1\<lparr>db_completedAssignments := db_completedAssignments db @ [completion]\<rparr>))"

text \<open>The body of \<open>updateUserRank\<close> holds two comments and no statement.\<close>

definition updateUserRank :: "int \<Rightarrow> database \<Rightarrow> database" where
  "updateUserRank userId' db = db"

text \<open>
  \<open>completeAssignment\<close> reads the clock once (\<open>now\<close>). Its first query is awaited
  before anything else runs, so another request can be served between the query and the
  rest of the function: \<open>selectExistingCompletion\<close> is that query and
  \<open>completeAssignment_after\<close> the function from the test of its result on. A rejected
  insert rejects the function with it. (A reference outside the 32-bit range is rejected
  by the first query already, with the same outcome: the error, and nothing changed.)
\<close>

datatype completeAssignmentResult =
  AlreadyCompleted
  | Completed completedAssignment "assignment option" "user option"

definition selectExistingCompletion :: "int \<Rightarrow> int \<Rightarrow> database \<Rightarrow> completedAssignment option" where
  "selectExistingCompletion assignmentId userId' db =
     find (\<lambda>r. ca_assignmentId r = assignmentId \<and> ca_userId r = userId')
       (db_completedAssignments db)"

definition completeAssignment_after ::
  "completedAssignment option \<Rightarrow> int \<Rightarrow> int \<Rightarrow> date \<Rightarrow> database
     \<Rightarrow> (db_error + completeAssignmentResult) \<times> database" where
  "completeAssignment_after existingCompletion assignmentId userId' now db =
     (case existingCompletion of
        Some _ \<Rightarrow> (Inr AlreadyCompleted, db)
      | None \<Rightarrow>
          (case insertCompletedAssignment assignmentId userId' now db of
             (Inl e, db1) \<Rightarrow> (Inl e, db1)
           | (Inr completion, db1) \<Rightarrow>
               let assignment = find (\<lambda>a. a_id a = assignmentId) (db_assignments db1);
                   user = find (\<lambda>u. u_id u = userId') (db_users db1);
                   db2 = updateUserRank userId' db1
               in (Inr (Completed completion assignment user), db2)))"

definition completeAssignment ::
  "int \<Rightarrow> int \<Rightarrow> date \<Rightarrow> database \<Rightarrow> (db_error + completeAssignmentResult) \<times> database" where
  "completeAssignment assignmentId userId' now db =
     completeAssignment_after (selectExistingCompletion assignmentId userId' db)
       assignmentId userId' now db"

text \<open>
  The two queries of \<open>getUnitRankings\<close>, and the function on a database. Neither query
  has an \<open>ORDER BY\<close>, so the server delivers the selected rows in an order of its
  choosing: the parameters \<open>deliverA\<close> and \<open>deliverC\<close> are that choice, applied to
  the rows selected in table order.
\<close>

type_synonym 'a delivery = "'a list \<Rightarrow> 'a list"

definition selectUnitAssignments ::
  "assignment delivery \<Rightarrow> string \<Rightarrow> database \<Rightarrow> assignment list" where
  "selectUnitAssignments deliverA unitCode db =
     deliverA (filter (\<lambda>a. a_unitCode a = unitCode) (db_assignments db))"

definition selectUserCompletions ::
  "userCompletion delivery \<Rightarrow> string \<Rightarrow> database \<Rightarrow> userCompletion list" where
  "selectUserCompletions deliverC unitCode db =
     deliverC (concat (map (\<lambda>ca.
       concat (map (\<lambda>u.
         map (\<lambda>a. \<lparr>uc_userId = ca_userId ca, uc_name = u_name u,
                    uc_profileImageUrl = u_profileImageUrl u,
                    uc_assignmentId = ca_assignmentId ca,
                    uc_completedAt = ca_completedAt ca\<rparr>)
           (filter (\<lambda>a. ca_assignmentId ca = a_id a \<and> a_unitCode a = unitCode)
              (db_assignments db)))
         (filter (\<lambda>u. ca_userId ca = u_id u) (db_users db))))
       (db_completedAssignments db)))"

definition getUnitRankings_db ::
  "formatDistance \<Rightarrow> assignment delivery \<Rightarrow> userCompletion delivery \<Rightarrow> string \<Rightarrow> database
     \<Rightarrow> (error + ranking list) \<times> database" where
  "getUnitRankings_db fd deliverA deliverC unitCode db =
     (getUnitRankings fd (selectUnitAssignments deliverA unitCode db)
        (selectUserCompletions deliverC unitCode db),
      db)"

text \<open>At most one row of \<open>completed_assignments\<close> for each pair of assignment and user.\<close>

definition uniqueCompletions :: "database \<Rightarrow> bool" where
  "uniqueCompletions db =
     distinct (map (\<lambda>r. (ca_assignmentId r, ca_userId r)) (db_completedAssignments db))"

section \<open>What the grouping loop computes\<close>

text \<open>
  A completion resolves when its assignment id is the id of a fetched assignment. The
  group of a user is the list of the objects pushed for that user's resolved completions,
  in the order of the completions input.
\<close>

definition resolves :: "assignment list \<Rightarrow> userCompletion \<Rightarrow> bool" where
  "resolves ua c \<longleftrightarrow> uc_assignmentId c \<in> a_id ` set ua"

definition groupItems ::
  "formatDistance \<Rightarrow> assignment list \<Rightarrow> userCompletion list \<Rightarrow> int \<Rightarrow> completion list" where
  "groupItems fd ua ucs u =
     concat (map (\<lambda>c. if uc_userId c = u
                       then (case find (\<lambda>a. a_id a = uc_assignmentId c) ua of
                               None \<Rightarrow> []
                             | Some a \<Rightarrow>
                                 [\<lparr>c_assignmentId = uc_assignmentId c,
                                   c_completedAt = uc_completedAt c,
                                   c_createdAt = a_createdAt a,
                                   c_title = a_title a,
                                   c_completionTime = fd (uc_completedAt c) (a_createdAt a)\<rparr>])
                       else []) ucs)"

text \<open>
  The keys of the map after the loop has run over some completions, starting from the
  keys \<open>ks\<close>; and the value the loop builds for a user, starting from the empty map.
\<close>

fun keysAfter :: "assignment list \<Rightarrow> int list \<Rightarrow> userCompletion list \<Rightarrow> int list" where
  "keysAfter ua ks [] = ks"
| "keysAfter ua ks (c # cs) =
     keysAfter ua (if resolves ua c \<and> uc_userId c \<notin> set ks then ks @ [uc_userId c] else ks) cs"

definition userDataOf ::
  "formatDistance \<Rightarrow> assignment list \<Rightarrow> userCompletion list \<Rightarrow> int \<Rightarrow> userData option" where
  "userDataOf fd ua ucs u =
     (case find (\<lambda>c. uc_userId c = u \<and> resolves ua c) ucs of
        None \<Rightarrow> None
      | Some c \<Rightarrow> Some \<lparr>ud_userId = u, ud_name = uc_name c,
                         ud_profileImageUrl = uc_profileImageUrl c,
                         ud_completions = groupItems fd ua ucs u\<rparr>)"

text \<open>
  The latencies of a user's resolved completions, in milliseconds: completion time minus
  the creation time of the assignment found for it.
\<close>

definition latencies :: "assignment list \<Rightarrow> userCompletion list \<Rightarrow> int \<Rightarrow> int list" where
  "latencies ua ucs u =
     concat (map (\<lambda>c. if uc_userId c = u
                       then (case find (\<lambda>a. a_id a = uc_assignmentId c) ua of
                               None \<Rightarrow> []
                             | Some a \<Rightarrow> [uc_completedAt c - a_createdAt a])
                       else []) ucs)"

section \<open>Worked example\<close>

text \<open>
  A stand-in for \<open>formatDistance\<close>, and a unit with four assignments, created an hour
  apart. User 7 completes all four, users 8 and 9 one each with the same latency of thirty
  minutes, and user 6 has a completion of an assignment that is not in the unit.
\<close>

definition ex_formatDistance :: formatDistance where
  "ex_formatDistance d1 d2 =
     (if \<bar>d1 - d2\<bar> < 2700000 then ''30 minutes'' else ''about 1 hour or more'')"

definition ex_assignment :: "int \<Rightarrow> date \<Rightarrow> assignment" where
  "ex_assignment i t =
     \<lparr>a_id = i, a_title = ''Sheet'', a_description = ''Exercises'', a_deadline = t + 86400000,
      a_fileUrl = None, a_unitCode = ''MAT 2101'', a_userId = 1, a_createdAt = t\<rparr>"

definition ex_completion :: "int \<Rightarrow> int \<Rightarrow> date \<Rightarrow> userCompletion" where
  "ex_completion u i t =
     \<lparr>uc_userId = u, uc_name = ''Student'', uc_profileImageUrl = None, uc_assignmentId = i,
      uc_completedAt = t\<rparr>"

definition ex_assignments :: "assignment list" where
  "ex_assignments =
     [ex_assignment 1 0, ex_assignment 2 3600000, ex_assignment 3 7200000,
      ex_assignment 4 10800000]"

definition ex_completions :: "userCompletion list" where
  "ex_completions =
     [ex_completion 7 1 7200000, ex_completion 8 2 5400000, ex_completion 6 5 1000,
      ex_completion 7 2 5400000, ex_completion 9 1 1800000, ex_completion 7 3 9000000,
      ex_completion 7 4 12600001]"

text \<open>The leaderboard of the example: users 8 and 9 tie, user 7 averages 3150000.25 ms.\<close>

definition ex_item :: "int \<Rightarrow> date \<Rightarrow> date \<Rightarrow> string \<Rightarrow> completion" where
  "ex_item i done created txt =
     \<lparr>c_assignmentId = i, c_completedAt = done, c_createdAt = created, c_title = ''Sheet'',
      c_completionTime = txt\<rparr>"

definition ex_rankings :: "ranking list" where
  "ex_rankings =
     [\<lparr>userId = 8, name = ''Student'', profileImageUrl = None, completedAssignments = 1,
       averageCompletionTime = ''30 minutes'', totalMilliseconds = 1800000,
       recentCompletions = [ex_item 2 5400000 3600000 ''30 minutes''],
       overallRank = 1, position = Some 1\<rparr>,
      \<lparr>userId = 9, name = ''Student'', profileImageUrl = None, completedAssignments = 1,
       averageCompletionTime = ''30 minutes'', totalMilliseconds = 1800000,
       recentCompletions = [ex_item 1 1800000 0 ''30 minutes''],
       overallRank = 2, position = Some 2\<rparr>,
      \<lparr>userId = 7, name = ''Student'', profileImageUrl = None, completedAssignments = 4,
       averageCompletionTime = ''about 1 hour or more'', totalMilliseconds = 12600001 / 4,
       recentCompletions =
         [ex_item 4 12600001 10800000 ''30 minutes'', ex_item 3 9000000 7200000 ''30 minutes'',
          ex_item 1 7200000 0 ''about 1 hour or more''],
       overallRank = 3, position = Some 3\<rparr>]"

text \<open>
  A second unit: one user completes three assignments after 1000, 1000 and 2000 ms, an
  average of 4000/3 ms, which no double represents.
\<close>

definition ex2_assignments :: "assignment list" where
  "ex2_assignments = [ex_assignment 1 0, ex_assignment 2 0, ex_assignment 3 0]"

definition ex2_completions :: "userCompletion list" where
  "ex2_completions = [ex_completion 7 1 1000, ex_completion 7 2 1000, ex_completion 7 3 2000]"

definition ex2_rankings :: "ranking list" where
  "ex2_rankings =
     [\<lparr>userId = 7, name = ''Student'', profileImageUrl = None, completedAssignments = 3,
       averageCompletionTime = ''30 minutes'',
       totalMilliseconds = 5864062014805333 / 4398046511104,
       recentCompletions =
         [ex_item 3 2000 0 ''30 minutes'', ex_item 1 1000 0 ''30 minutes'',
          ex_item 2 1000 0 ''30 minutes''],
       overallRank = 1, position = Some 1\<rparr>]"

text \<open>
  A third unit: its assignment is created 1e15 ms before the epoch and completed at the
  last valid time value, 8.64e15 ms after it, so the latency is no time value.
\<close>

definition ex3_assignments :: "assignment list" where
  "ex3_assignments = [ex_assignment 1 (- 1000000000000000)]"

definition ex3_completions :: "userCompletion list" where
  "ex3_completions = [ex_completion 7 1 8640000000000000]"

text \<open>
  A database with the uploader of an assignment, a student, the assignment and no
  completion yet.
\<close>

definition ex_user :: "int \<Rightarrow> user" where
  "ex_user i =
     \<lparr>u_id = i, u_name = ''Student'', u_admissionNumber = ''A'', u_password = ''x'',
      u_profileImageUrl = None, u_rank = None, u_role = Some ''student''\<rparr>"

definition ex_db :: database where
  "ex_db = \<lparr>db_users = [ex_user 1, ex_user 7], db_assignments = [ex_assignment 1 0],
            db_completedAssignments = [], db_completedAssignments_id_seq = 1\<rparr>"

section \<open>Rounding keeps the sign\<close>

lemma ilog2_lower:
  assumes "q \<noteq> 0"
  shows "2 powi (ilog2 q) \<le> \<bar>q\<bar>"
proof -
  obtain a b where ab: "quotient_of \<bar>q\<bar> = (a, b)" by (cases "quotient_of \<bar>q\<bar>")
  have b: "0 < b" using ab quotient_of_denom_pos by blast
  have q: "\<bar>q\<bar> = of_int a / of_int b" using ab quotient_of_div by blast
  have "0 < \<bar>q\<bar>" using assms by simp
  then have a: "0 < a" using q b by (simp add: zero_less_divide_iff)
  define k where "k = bitlen a - bitlen b"
  have e: "ilog2 q = (if 2 powi k \<le> \<bar>q\<bar> then k else k - 1)"
    by (simp add: ilog2_def ab k_def Let_def)
  have la: "1 \<le> bitlen a" using a by (simp add: bitlen_alt_def)
  have lb: "1 \<le> bitlen b" using b by (simp add: bitlen_alt_def)
  have A: "(2::rat) powi (bitlen a - 1) \<le> of_int a"
  proof -
    have "(2::int) ^ nat (bitlen a - 1) \<le> a" using bitlen_bounds [OF a] by simp
    then have "(of_int ((2::int) ^ nat (bitlen a - 1)) :: rat) \<le> of_int a"
      by (simp only: of_int_le_iff)
    then show ?thesis using la by (simp add: power_int_def)
  qed
  have B: "(of_int b :: rat) \<le> 2 powi (bitlen b)"
  proof -
    have "b < (2::int) ^ nat (bitlen b)" using bitlen_bounds [OF b] by simp
    then have "(of_int b :: rat) < of_int ((2::int) ^ nat (bitlen b))"
      by (simp only: of_int_less_iff)
    then show ?thesis using lb by (simp add: power_int_def)
  qed
  have "(2::rat) powi (k - 1) = 2 powi (bitlen a - 1) / 2 powi (bitlen b)"
    by (simp add: k_def power_int_diff)
  also have "\<dots> \<le> of_int a / of_int b"
    by (rule frac_le [OF _ A _ B]) (use a b in simp_all)
  finally have "(2::rat) powi (k - 1) \<le> \<bar>q\<bar>" using q by simp
  then show ?thesis using e by auto
qed

lemma roundTiesToEven_ge: "\<lfloor>x\<rfloor> \<le> roundTiesToEven x"
  by (simp add: roundTiesToEven_def Let_def)

lemma roundTiesToEven_le: "roundTiesToEven x \<le> \<lfloor>x\<rfloor> + 1"
  by (simp add: roundTiesToEven_def Let_def)

lemma roundTiesToEven_of_int [simp]: "roundTiesToEven (of_int n) = n"
  by (simp add: roundTiesToEven_def Let_def)

lemma scaled_ge:
  assumes "q \<noteq> 0"
  shows "2 ^ 52 \<le> \<bar>q\<bar> / 2 powi (ilog2 q - 52)"
proof -
  have "(2::rat) ^ 52 * 2 powi (ilog2 q - 52) = 2 powi (ilog2 q)"
    by (simp add: power_int_diff)
  also have "\<dots> \<le> \<bar>q\<bar>" using assms by (rule ilog2_lower)
  finally show ?thesis by (simp add: pos_le_divide_eq)
qed

lemma fl_pos:
  assumes "0 < q"
  shows "0 < fl q"
proof -
  let ?p = "ilog2 q - 52"
  have "(1::rat) \<le> 2 ^ 52" by simp
  also have "\<dots> \<le> \<bar>q\<bar> / 2 powi ?p" using scaled_ge [of q] assms by blast
  finally have "1 \<le> q / 2 powi ?p" using assms by (simp only: abs_of_pos)
  then have "1 \<le> \<lfloor>q / 2 powi ?p\<rfloor>" by (simp only: le_floor_iff of_int_1)
  then have "0 < roundTiesToEven (q / 2 powi ?p)"
    using roundTiesToEven_ge [of "q / 2 powi ?p"] by linarith
  then show ?thesis using assms by (simp add: fl_def Let_def zero_less_mult_iff)
qed

lemma fl_neg:
  assumes "q < 0"
  shows "fl q < 0"
proof -
  let ?p = "ilog2 q - 52"
  have "(2::rat) \<le> 2 ^ 52" by simp
  also have "\<dots> \<le> \<bar>q\<bar> / 2 powi ?p" using scaled_ge [of q] assms by blast
  finally have "2 \<le> - (q / 2 powi ?p)" using assms by (simp only: abs_of_neg minus_divide_left)
  then have "q / 2 powi ?p \<le> - 2" by linarith
  then have "\<lfloor>q / 2 powi ?p\<rfloor> \<le> - 2" by (simp only: floor_le_iff)
  then have "roundTiesToEven (q / 2 powi ?p) < 0"
    using roundTiesToEven_le [of "q / 2 powi ?p"] by linarith
  then show ?thesis using assms by (simp add: fl_def Let_def mult_less_0_iff)
qed

lemma fl_zero [simp]: "fl 0 = 0"
  by (simp add: fl_def)

lemma fl_le_zero_iff: "fl q \<le> 0 \<longleftrightarrow> q \<le> 0"
proof (cases "q \<le> 0")
  case True
  then show ?thesis using fl_neg [of q] by (cases "q = 0") auto
next
  case False
  then show ?thesis using fl_pos [of q] by auto
qed

lemma num_sub_le_zero_iff: "num_sub x y \<le> 0 \<longleftrightarrow> x \<le> y"
  by (simp add: num_sub_def fl_le_zero_iff)

section \<open>The two sorts are stable sorts by a key\<close>

lemma insort_by_key:
  assumes "\<And>a b. cmp a b \<le> 0 \<longleftrightarrow> f a \<le> f b"
  shows "insort_by cmp x ys = insort_key f x ys"
  by (induction ys) (simp_all add: assms)

lemma array_sort_key:
  assumes "\<And>a b. cmp a b \<le> 0 \<longleftrightarrow> f a \<le> f b"
  shows "array_sort cmp xs = sort_key f xs"
proof -
  have "insort_by cmp = insort_key f"
    by (intro ext) (rule insort_by_key [OF assms])
  then show ?thesis by (simp add: array_sort_def sort_key_def)
qed

lemma rankCompare_le:
  "rankCompare a b \<le> 0 \<longleftrightarrow> totalMilliseconds a \<le> totalMilliseconds b"
  by (simp add: rankCompare_def num_sub_le_zero_iff)

lemma recentCompare_le:
  "recentCompare a b \<le> 0 \<longleftrightarrow> - c_completedAt a \<le> - c_completedAt b"
  by (simp add: recentCompare_def num_sub_le_zero_iff getTime_def)

lemma sort_rankings: "array_sort rankCompare xs = sort_key totalMilliseconds xs"
  by (rule array_sort_key) (rule rankCompare_le)

lemma sort_recent: "array_sort recentCompare xs = sort_key (\<lambda>c. - c_completedAt c) xs"
  by (rule array_sort_key) (rule recentCompare_le)

section \<open>The loops\<close>

lemma length_assignPositions [simp]: "length (assignPositions k rs) = length rs"
  by (induction k rs rule: assignPositions.induct) simp_all

lemma nth_assignPositions:
  "i < length rs \<Longrightarrow>
     assignPositions k rs ! i =
       (rs ! i)\<lparr>position := Some (k + i + 1), overallRank := k + i + 1\<rparr>"
proof (induction k rs arbitrary: i rule: assignPositions.induct)
  case (1 index)
  then show ?case by simp
next
  case (2 index ranking rest)
  then show ?case by (cases i) simp_all
qed

lemma map_get_map_set_same [simp]: "map_get (map_set m k v) k = Some v"
  by (induction m k v rule: map_set.induct) simp_all

lemma groupStep_total: "\<exists>m'. groupStep fd ua c m = Inr m'"
  by (simp add: groupStep_def Let_def map_has_def split: option.splits)

lemma groupLoop_total: "\<exists>m'. groupLoop fd ua cs m = Inr m'"
proof (induction cs arbitrary: m)
  case Nil
  then show ?case by simp
next
  case (Cons c cs)
  obtain m1 where "groupStep fd ua c m = Inr m1" using groupStep_total by blast
  then show ?case using Cons.IH [of m1] by simp
qed

lemma rankingOf_Inr:
  assumes "rankingOf fd ud = Inr r"
  shows "userId r = ud_userId ud"
    and "completedAssignments r = length (ud_completions ud)"
    and "totalMilliseconds r =
           (if length (ud_completions ud) > 0
            then num_div (totalTimeMs (ud_completions ud)) (of_nat (length (ud_completions ud)))
            else 0)"
    and "recentCompletions r = take 3 (array_sort recentCompare (ud_completions ud))"
  using assms by (auto simp: rankingOf_def Let_def split: sum.splits)

lemma pushRankings_Inr:
  "pushRankings fd m = Inr rs \<Longrightarrow> list_all2 (\<lambda>e r. rankingOf fd (snd e) = Inr r) m rs"
proof (induction m arbitrary: rs)
  case Nil
  then show ?case by simp
next
  case (Cons e m)
  obtain k ud where e: "e = (k, ud)" by (cases e)
  from Cons.prems obtain r rest where r: "rankingOf fd ud = Inr r"
    and rest: "pushRankings fd m = Inr rest" and rs: "rs = r # rest"
    unfolding e by (auto split: sum.splits)
  show ?case using Cons.IH [OF rest] r rs e by simp
qed

lemma pushRankings_entry:
  assumes "pushRankings fd m = Inr rs" and "r \<in> set rs"
  shows "\<exists>k ud. (k, ud) \<in> set m \<and> rankingOf fd ud = Inr r"
proof -
  have a: "list_all2 (\<lambda>e r. rankingOf fd (snd e) = Inr r) m rs"
    by (rule pushRankings_Inr [OF assms(1)])
  obtain i where i: "i < length rs" "rs ! i = r" using assms(2) by (auto simp: in_set_conv_nth)
  have l: "length m = length rs" using a by (rule list_all2_lengthD)
  have "rankingOf fd (snd (m ! i)) = Inr (rs ! i)" using a i(1) l by (simp add: list_all2_conv_all_nth)
  moreover have "m ! i \<in> set m" using i(1) l by simp
  ultimately show ?thesis using i(2) by (metis prod.collapse)
qed

lemma pushRankings_userIds:
  assumes "pushRankings fd m = Inr rs" and "\<And>k ud. (k, ud) \<in> set m \<Longrightarrow> ud_userId ud = k"
  shows "map userId rs = map fst m"
  using assms
proof (induction m arbitrary: rs)
  case Nil
  then show ?case by simp
next
  case (Cons e m)
  obtain k ud where e: "e = (k, ud)" by (cases e)
  from Cons.prems(1) obtain r rest where r: "rankingOf fd ud = Inr r"
    and rest: "pushRankings fd m = Inr rest" and rs: "rs = r # rest"
    unfolding e by (auto split: sum.splits)
  have "ud_userId ud = k" using Cons.prems(2) [of k ud] e by simp
  then have "userId r = k" using rankingOf_Inr(1) [OF r] by simp
  moreover have "map userId rest = map fst m" using Cons.IH [OF rest] Cons.prems(2) by simp
  ultimately show ?case using rs e by simp
qed

lemma getUnitRankings_cases:
  assumes "getUnitRankings fd ua ucs = Inr rs"
  obtains (empty) "ua = []" "rs = []"
  | (ranked) m rankings where "ua \<noteq> []" "groupLoop fd ua ucs [] = Inr m"
      "pushRankings fd m = Inr rankings"
      "rs = assignPositions 0 (sort_key totalMilliseconds rankings)"
  using assms by (auto simp: getUnitRankings_def sort_rankings split: if_splits sum.splits)

section \<open>The grouping loop in closed form\<close>

lemma find_None_resolves: "find (\<lambda>a. a_id a = uc_assignmentId c) ua = None \<longleftrightarrow> \<not> resolves ua c"
  by (auto simp: find_None_iff resolves_def image_iff)

lemma map_get_map_set: "map_get (map_set m k v) k' = (if k' = k then Some v else map_get m k')"
  by (induction m k v rule: map_set.induct) simp_all

lemma map_has_keys: "map_has m k \<longleftrightarrow> k \<in> fst ` set m"
  by (induction m) (auto simp: map_has_def)

lemma keys_map_set:
  "map fst (map_set m k v) = (if map_has m k then map fst m else map fst m @ [k])"
  by (induction m k v rule: map_set.induct) (auto simp: map_has_def)

lemma map_has_map_set_same [simp]: "map_has (map_set m k v) k"
  by (simp add: map_has_def)

lemma groupStep_unresolved: "\<not> resolves ua c \<Longrightarrow> groupStep fd ua c m = Inr m"
  using find_None_resolves [of c ua] by (simp add: groupStep_def)

lemma groupStep_keys:
  assumes "groupStep fd ua c m = Inr m'"
  shows "map fst m' =
           (if resolves ua c \<and> uc_userId c \<notin> set (map fst m) then map fst m @ [uc_userId c]
            else map fst m)"
proof (cases "find (\<lambda>a. a_id a = uc_assignmentId c) ua")
  case None
  then show ?thesis using assms find_None_resolves [of c ua] by (simp add: groupStep_def)
next
  case (Some a)
  then have r: "resolves ua c" using find_None_resolves [of c ua] by simp
  have "map fst m' = (if map_has m (uc_userId c) then map fst m else map fst m @ [uc_userId c])"
    using assms Some
    by (auto simp: groupStep_def Let_def keys_map_set split: option.splits)
  then show ?thesis using r by (simp add: map_has_keys)
qed

lemma groupLoop_keys:
  "groupLoop fd ua ucs m = Inr m' \<Longrightarrow> map fst m' = keysAfter ua (map fst m) ucs"
proof (induction ucs arbitrary: m)
  case Nil
  then show ?case by simp
next
  case (Cons c cs)
  obtain m1 where s: "groupStep fd ua c m = Inr m1" using groupStep_total by blast
  then have "groupLoop fd ua cs m1 = Inr m'" using Cons.prems by simp
  then have "map fst m' = keysAfter ua (map fst m1) cs" by (rule Cons.IH)
  then show ?case using groupStep_keys [OF s] by simp
qed

lemma groupItems_Nil [simp]: "groupItems fd ua [] k = []"
  by (simp add: groupItems_def)

lemma groupItems_Cons:
  "groupItems fd ua (c # cs) k = groupItems fd ua [c] k @ groupItems fd ua cs k"
  by (simp add: groupItems_def)

lemma groupItems_append:
  "groupItems fd ua (xs @ ys) k = groupItems fd ua xs k @ groupItems fd ua ys k"
  by (simp add: groupItems_def)

lemma groupItems_other [simp]: "uc_userId c \<noteq> k \<Longrightarrow> groupItems fd ua [c] k = []"
  by (simp add: groupItems_def)

lemma groupItems_unresolved [simp]: "\<not> resolves ua c \<Longrightarrow> groupItems fd ua [c] k = []"
  using find_None_resolves [of c ua] by (simp add: groupItems_def)

lemma userDataOf_skip:
  "uc_userId c \<noteq> k \<or> \<not> resolves ua c \<Longrightarrow>
     userDataOf fd ua (c # cs) k =
       map_option (\<lambda>ud. ud\<lparr>ud_completions := groupItems fd ua (c # cs) k\<rparr>)
         (userDataOf fd ua cs k)"
  by (auto simp: userDataOf_def split: option.splits)

lemma userDataOf_hit:
  "uc_userId c = k \<Longrightarrow> resolves ua c \<Longrightarrow>
     userDataOf fd ua (c # cs) k =
       Some \<lparr>ud_userId = k, ud_name = uc_name c, ud_profileImageUrl = uc_profileImageUrl c,
             ud_completions = groupItems fd ua (c # cs) k\<rparr>"
  by (simp add: userDataOf_def)

lemma groupStep_get_other:
  assumes "groupStep fd ua c m = Inr m'" and "uc_userId c \<noteq> k \<or> \<not> resolves ua c"
  shows "map_get m' k = map_get m k"
proof (cases "resolves ua c")
  case False
  then show ?thesis using assms(1) by (simp add: groupStep_unresolved)
next
  case True
  then have "uc_userId c \<noteq> k" using assms(2) by blast
  then show ?thesis using assms(1)
    by (auto simp: groupStep_def Let_def map_get_map_set split: option.splits if_splits)
qed

lemma groupStep_get_hit:
  assumes "groupStep fd ua c m = Inr m'" and "uc_userId c = k" and "resolves ua c"
  shows "map_get m' k =
           Some (case map_get m k of
                   None \<Rightarrow> \<lparr>ud_userId = k, ud_name = uc_name c,
                             ud_profileImageUrl = uc_profileImageUrl c,
                             ud_completions = groupItems fd ua [c] k\<rparr>
                 | Some ud \<Rightarrow> ud\<lparr>ud_completions := ud_completions ud @ groupItems fd ua [c] k\<rparr>)"
proof -
  obtain a where a: "find (\<lambda>a. a_id a = uc_assignmentId c) ua = Some a"
    using assms(3) find_None_resolves [of c ua] by (cases "find (\<lambda>a. a_id a = uc_assignmentId c) ua") auto
  show ?thesis using assms(1,2) a
    by (auto simp: groupStep_def Let_def map_has_def map_get_map_set groupItems_def
        split: option.splits if_splits)
qed

lemma groupLoop_get:
  "groupLoop fd ua ucs m = Inr m' \<Longrightarrow>
     map_get m' k =
       (case map_get m k of
          Some ud \<Rightarrow> Some (ud\<lparr>ud_completions := ud_completions ud @ groupItems fd ua ucs k\<rparr>)
        | None \<Rightarrow> userDataOf fd ua ucs k)"
proof (induction ucs arbitrary: m)
  case Nil
  then show ?case by (simp add: userDataOf_def split: option.splits)
next
  case (Cons c cs)
  obtain m1 where s: "groupStep fd ua c m = Inr m1" using groupStep_total by blast
  then have "groupLoop fd ua cs m1 = Inr m'" using Cons.prems by simp
  then have IH: "map_get m' k =
       (case map_get m1 k of
          Some ud \<Rightarrow> Some (ud\<lparr>ud_completions := ud_completions ud @ groupItems fd ua cs k\<rparr>)
        | None \<Rightarrow> userDataOf fd ua cs k)"
    by (rule Cons.IH)
  show ?case
  proof (cases "uc_userId c = k \<and> resolves ua c")
    case True
    then show ?thesis
      using IH groupStep_get_hit [OF s, of k]
      by (simp add: userDataOf_hit groupItems_Cons [of fd ua c cs] split: option.splits)
  next
    case False
    then have o: "uc_userId c \<noteq> k \<or> \<not> resolves ua c" by blast
    then have e: "groupItems fd ua (c # cs) k = groupItems fd ua cs k"
      by (auto simp: groupItems_Cons [of fd ua c cs])
    show ?thesis
      using IH groupStep_get_other [OF s o] userDataOf_skip [OF o, of fd cs] e
      by (auto simp: userDataOf_def split: option.splits)
  qed
qed

lemma keysAfter_prefix: "\<exists>ks'. keysAfter ua ks ucs = ks @ ks'"
  by (induction ucs arbitrary: ks) (auto, metis append.assoc)

lemma keysAfter_distinct: "distinct ks \<Longrightarrow> distinct (keysAfter ua ks ucs)"
  by (induction ucs arbitrary: ks) auto

lemma keysAfter_set:
  "set (keysAfter ua ks ucs) = set ks \<union> uc_userId ` {c \<in> set ucs. resolves ua c}"
  by (induction ucs arbitrary: ks) auto


lemma map_get_entry: "distinct (map fst m) \<Longrightarrow> (k, v) \<in> set m \<Longrightarrow> map_get m k = Some v"
  by (induction m) (auto simp: image_iff)

lemma keysAfter_empty_unit [simp]: "keysAfter [] ks ucs = ks"
  by (induction ucs arbitrary: ks) (simp_all add: resolves_def)

lemma length_groupItems:
  "length (groupItems fd ua ucs u) = length (filter (\<lambda>c. uc_userId c = u \<and> resolves ua c) ucs)"
proof (induction ucs)
  case Nil
  then show ?case by simp
next
  case (Cons c cs)
  show ?case
  proof (cases "uc_userId c = u \<and> resolves ua c")
    case True
    then obtain a where "find (\<lambda>a. a_id a = uc_assignmentId c) ua = Some a"
      using find_None_resolves [of c ua] by (cases "find (\<lambda>a. a_id a = uc_assignmentId c) ua") auto
    then have "length (groupItems fd ua [c] u) = 1" using True by (simp add: groupItems_def)
    then show ?thesis using True Cons.IH by (simp add: groupItems_Cons [of fd ua c cs])
  next
    case False
    then have "groupItems fd ua [c] u = []" by auto
    then show ?thesis using False Cons.IH by (simp add: groupItems_Cons [of fd ua c cs])
  qed
qed

lemma groupLoop_entry:
  assumes "groupLoop fd ua ucs [] = Inr m" and "(k, ud) \<in> set m"
  shows "ud_userId ud = k \<and> ud_completions ud = groupItems fd ua ucs k"
proof -
  have "map fst m = keysAfter ua [] ucs" using groupLoop_keys [OF assms(1)] by simp
  then have "distinct (map fst m)" by (simp add: keysAfter_distinct)
  then have "map_get m k = Some ud" using assms(2) by (rule map_get_entry)
  then have "userDataOf fd ua ucs k = Some ud" using groupLoop_get [OF assms(1), of k] by simp
  then show ?thesis by (auto simp: userDataOf_def split: option.splits)
qed

lemma groupLoop_userIds:
  assumes "groupLoop fd ua ucs [] = Inr m" and "pushRankings fd m = Inr rankings"
  shows "map userId rankings = keysAfter ua [] ucs"
proof -
  have "map userId rankings = map fst m"
    using groupLoop_entry [OF assms(1)] by (intro pushRankings_userIds [OF assms(2)]) simp
  then show ?thesis using groupLoop_keys [OF assms(1)] by simp
qed

lemma assignPositions_fields:
  "r \<in> set (assignPositions k rs) \<Longrightarrow>
     \<exists>r0 \<in> set rs. userId r = userId r0 \<and> completedAssignments r = completedAssignments r0
       \<and> totalMilliseconds r = totalMilliseconds r0
       \<and> recentCompletions r = recentCompletions r0"
  by (induction k rs rule: assignPositions.induct) auto

lemma map_userId_assignPositions [simp]:
  "map userId (assignPositions k rs) = map userId rs"
  by (induction k rs rule: assignPositions.induct) simp_all

lemma getUnitRankings_entry:
  assumes "getUnitRankings fd ua ucs = Inr rs" and "r \<in> set rs"
  shows "completedAssignments r = length (groupItems fd ua ucs (userId r))
         \<and> totalMilliseconds r =
             (if length (groupItems fd ua ucs (userId r)) > 0
              then num_div (totalTimeMs (groupItems fd ua ucs (userId r)))
                     (of_nat (length (groupItems fd ua ucs (userId r))))
              else 0)
         \<and> recentCompletions r =
             take 3 (sort_key (\<lambda>e. - c_completedAt e) (groupItems fd ua ucs (userId r)))"
  using assms(1)
proof (cases rule: getUnitRankings_cases)
  case empty
  then show ?thesis using assms(2) by simp
next
  case (ranked m rankings)
  obtain r0 where r0: "r0 \<in> set rankings"
    and f: "userId r = userId r0" "completedAssignments r = completedAssignments r0"
      "totalMilliseconds r = totalMilliseconds r0" "recentCompletions r = recentCompletions r0"
  proof -
    have "r \<in> set (assignPositions 0 (sort_key totalMilliseconds rankings))"
      using assms(2) ranked(4) by simp
    from assignPositions_fields [OF this] show ?thesis using that by auto
  qed
  obtain k ud where e: "(k, ud) \<in> set m" and r0': "rankingOf fd ud = Inr r0"
    using pushRankings_entry [OF ranked(3) r0] by blast
  have ud: "ud_userId ud = k" "ud_completions ud = groupItems fd ua ucs k"
    using groupLoop_entry [OF ranked(2) e] by simp_all
  show ?thesis using f rankingOf_Inr [OF r0'] ud by (simp add: sort_recent)
qed

lemma getUnitRankings_userIds:
  assumes "getUnitRankings fd ua ucs = Inr rs"
  shows "mset (map userId rs) = mset (keysAfter ua [] ucs)"
  using assms
proof (cases rule: getUnitRankings_cases)
  case empty
  then show ?thesis by simp
next
  case (ranked m rankings)
  have "mset (map userId rs) = mset (map userId rankings)"
    using ranked(4) by simp
  then show ?thesis by (simp only: groupLoop_userIds [OF ranked(2,3)])
qed

lemma groupLoop_append:
  "groupLoop fd ua (xs @ ys) m =
     (case groupLoop fd ua xs m of Inl e \<Rightarrow> Inl e | Inr m1 \<Rightarrow> groupLoop fd ua ys m1)"
  by (induction xs arbitrary: m) (simp_all split: sum.splits)


lemma set_groupItems:
  "set (groupItems fd ua ucs u) = (\<Union>c \<in> set ucs. set (groupItems fd ua [c] u))"
proof (induction ucs)
  case Nil
  then show ?case by simp
next
  case (Cons c cs)
  then show ?case by (simp add: groupItems_Cons [of fd ua c cs])
qed

lemma groupItems_origin:
  assumes "e \<in> set (groupItems fd ua ucs u)"
  shows "\<exists>c a. c \<in> set ucs \<and> uc_userId c = u
           \<and> find (\<lambda>a. a_id a = uc_assignmentId c) ua = Some a
           \<and> c_assignmentId e = uc_assignmentId c \<and> c_completedAt e = uc_completedAt c
           \<and> c_createdAt e = a_createdAt a \<and> c_title e = a_title a
           \<and> c_completionTime e = fd (uc_completedAt c) (a_createdAt a)"
proof -
  obtain c where c: "c \<in> set ucs" and e: "e \<in> set (groupItems fd ua [c] u)"
    using assms unfolding set_groupItems [of fd ua ucs u] by blast
  show ?thesis
  proof (cases "find (\<lambda>a. a_id a = uc_assignmentId c) ua")
    case None
    then have "\<not> resolves ua c" by (simp add: find_None_resolves)
    then have "groupItems fd ua [c] u = []" by (rule groupItems_unresolved)
    then have False using e by simp
    then show ?thesis ..
  next
    case (Some a)
    then have g: "groupItems fd ua [c] u =
        (if uc_userId c = u
         then [\<lparr>c_assignmentId = uc_assignmentId c, c_completedAt = uc_completedAt c,
                c_createdAt = a_createdAt a, c_title = a_title a,
                c_completionTime = fd (uc_completedAt c) (a_createdAt a)\<rparr>]
         else [])"
      by (simp add: groupItems_def)
    have u: "uc_userId c = u" using e g by (cases "uc_userId c = u") simp_all
    then have "e = \<lparr>c_assignmentId = uc_assignmentId c, c_completedAt = uc_completedAt c,
                c_createdAt = a_createdAt a, c_title = a_title a,
                c_completionTime = fd (uc_completedAt c) (a_createdAt a)\<rparr>"
      using e g by simp
    with u have "c \<in> set ucs \<and> uc_userId c = u
           \<and> find (\<lambda>a. a_id a = uc_assignmentId c) ua = Some a
           \<and> c_assignmentId e = uc_assignmentId c \<and> c_completedAt e = uc_completedAt c
           \<and> c_createdAt e = a_createdAt a \<and> c_title e = a_title a
           \<and> c_completionTime e = fd (uc_completedAt c) (a_createdAt a)"
      using c Some by simp
    then show ?thesis by blast
  qed
qed

section \<open>Rounding is exact on small integers and accurate elsewhere\<close>

lemma fl_scaled_int:
  assumes "q \<noteq> 0" and "q = of_int m * 2 powi (ilog2 q - 52)"
  shows "fl q = q"
proof -
  have "q / 2 powi (ilog2 q - 52) = of_int m"
    by (subst assms(2)) simp
  then have "roundTiesToEven (q / 2 powi (ilog2 q - 52)) = m"
    by (simp only: roundTiesToEven_of_int)
  then show ?thesis using assms by (simp add: fl_def Let_def)
qed

lemma fl_of_int:
  assumes "\<bar>n\<bar> \<le> 2 ^ 53"
  shows "fl (of_int n) = of_int n"
proof (cases "n = 0")
  case True
  then show ?thesis by simp
next
  case False
  let ?q = "of_int n :: rat"
  let ?e = "ilog2 ?q"
  have q0: "?q \<noteq> 0" using False by simp
  have low: "2 powi ?e \<le> \<bar>?q\<bar>" by (rule ilog2_lower [OF q0])
  have up: "\<bar>?q\<bar> \<le> 2 ^ 53"
  proof -
    have "(of_int \<bar>n\<bar> :: rat) \<le> of_int (2 ^ 53)" using assms by (simp only: of_int_le_iff)
    then show ?thesis by simp
  qed
  have "(2::rat) powi ?e \<le> 2 powi 53" using low up by simp
  then have e: "?e \<le> 53" by (rule power_int_le_imp_le_exp [rotated]) simp_all
  show ?thesis
  proof (cases "?e \<le> 52")
    case True
    define k where "k = nat (52 - ?e)"
    have "?e - 52 = - int k" using True by (simp add: k_def)
    then have p: "(2::rat) powi (?e - 52) = 1 / 2 ^ k"
      by (simp add: power_int_minus_divide)
    have "?q = of_int (n * 2 ^ k) * 2 powi (?e - 52)" by (simp add: p)
    then show ?thesis by (rule fl_scaled_int [OF q0])
  next
    case False
    then have e53: "?e = 53" using e by simp
    have "(2::rat) ^ 53 \<le> \<bar>?q\<bar>" using low e53 by simp
    then have "(of_int (2 ^ 53) :: rat) \<le> of_int \<bar>n\<bar>" by simp
    then have "2 ^ 53 \<le> \<bar>n\<bar>" by (simp only: of_int_le_iff)
    then have "\<bar>n\<bar> = 2 * 2 ^ 52" using assms by simp
    then have "even n" by presburger
    then obtain m where m: "n = m * 2" by (auto elim: evenE)
    have "?q = of_int m * 2 powi (?e - 52)" using m e53 by simp
    then show ?thesis by (rule fl_scaled_int [OF q0])
  qed
qed

lemma roundTiesToEven_close: "\<bar>of_int (roundTiesToEven x) - x\<bar> \<le> 1 / 2"
proof -
  have "of_int \<lfloor>x\<rfloor> \<le> x" "x < of_int \<lfloor>x\<rfloor> + 1" by linarith+
  then show ?thesis by (simp add: roundTiesToEven_def Let_def abs_if) linarith
qed

lemma fl_close: "\<bar>fl q - q\<bar> \<le> \<bar>q\<bar> / 2 ^ 53"
proof (cases "q = 0")
  case True
  then show ?thesis by simp
next
  case False
  let ?p = "ilog2 q - 52"
  let ?s = "(2::rat) powi ?p"
  have s: "0 < ?s" by simp
  have "fl q - q = (of_int (roundTiesToEven (q / ?s)) - q / ?s) * ?s"
    using False by (simp add: fl_def Let_def algebra_simps)
  then have "\<bar>fl q - q\<bar> = \<bar>of_int (roundTiesToEven (q / ?s)) - q / ?s\<bar> * ?s"
    using s by (simp add: abs_mult)
  also have "\<dots> \<le> (1 / 2) * ?s"
    using roundTiesToEven_close [of "q / ?s"] s by (intro mult_right_mono) simp_all
  also have "\<dots> = 2 powi (ilog2 q) / 2 ^ 53"
    by (simp add: power_int_diff)
  also have "\<dots> \<le> \<bar>q\<bar> / 2 ^ 53"
    using ilog2_lower [OF False] by (intro divide_right_mono) simp_all
  finally show ?thesis .
qed

section \<open>Ties keep the order of the map\<close>

lemma keysAfter_order:
  assumes "distinct ks" and "keysAfter ua ks ucs = as @ x # bs @ y # cs" and "y \<notin> set ks"
  shows "x \<in> set ks \<or>
         (\<exists>k<length ucs. resolves ua (ucs ! k) \<and> uc_userId (ucs ! k) = x
            \<and> (\<forall>l\<le>k. resolves ua (ucs ! l) \<longrightarrow> uc_userId (ucs ! l) \<noteq> y))"
  using assms
proof (induction ucs arbitrary: ks)
  case Nil
  then show ?case by auto
next
  case (Cons c rest)
  let ?ks1 = "if resolves ua c \<and> uc_userId c \<notin> set ks then ks @ [uc_userId c] else ks"
  have d1: "distinct ?ks1" using Cons.prems(1) by simp
  have k1: "keysAfter ua ?ks1 rest = as @ x # bs @ y # cs" using Cons.prems(2) by simp
  have dK: "distinct (as @ x # bs @ y # cs)"
    using keysAfter_distinct [OF d1, of ua rest] k1 by simp
  show ?case
  proof (cases "y \<in> set ?ks1")
    case True
    then have ks1: "?ks1 = ks @ [y]" and "resolves ua c" and "uc_userId c = y"
      using Cons.prems(3) by (auto split: if_splits)
    obtain ks' where "keysAfter ua ?ks1 rest = ?ks1 @ ks'" using keysAfter_prefix by blast
    then have e: "ks @ y # ks' = (as @ x # bs) @ y # cs" using k1 ks1 by simp
    then have "distinct (ks @ y # ks')" using dK by simp
    then have "y \<notin> set ks'" by simp
    then have "ks = as @ x # bs"
      using e append_Cons_eq_iff [OF Cons.prems(3), of ks' "as @ x # bs" cs] by simp
    then show ?thesis by simp
  next
    case False
    from Cons.IH [OF d1 k1 False]
    show ?thesis
    proof
      assume x: "x \<in> set ?ks1"
      show ?thesis
      proof (cases "x \<in> set ks")
        case True
        then show ?thesis by simp
      next
        case nx: False
        then have r: "resolves ua c" and u: "uc_userId c = x" using x by (auto split: if_splits)
        have xy: "x \<noteq> y" using x False by auto
        have "0 < length (c # rest) \<and> resolves ua ((c # rest) ! 0)
            \<and> uc_userId ((c # rest) ! 0) = x
            \<and> (\<forall>l\<le>0. resolves ua ((c # rest) ! l) \<longrightarrow> uc_userId ((c # rest) ! l) \<noteq> y)"
          using r u xy by simp
        then show ?thesis by blast
      qed
    next
      assume "\<exists>k<length rest. resolves ua (rest ! k) \<and> uc_userId (rest ! k) = x
            \<and> (\<forall>l\<le>k. resolves ua (rest ! l) \<longrightarrow> uc_userId (rest ! l) \<noteq> y)"
      then obtain k where k: "k < length rest" "resolves ua (rest ! k)" "uc_userId (rest ! k) = x"
        and a: "\<forall>l\<le>k. resolves ua (rest ! l) \<longrightarrow> uc_userId (rest ! l) \<noteq> y"
        by blast
      have c: "resolves ua c \<longrightarrow> uc_userId c \<noteq> y" using False by (auto split: if_splits)
      have "\<forall>l\<le>Suc k. resolves ua ((c # rest) ! l) \<longrightarrow> uc_userId ((c # rest) ! l) \<noteq> y"
      proof (intro allI impI)
        fix l
        assume "l \<le> Suc k" and "resolves ua ((c # rest) ! l)"
        then show "uc_userId ((c # rest) ! l) \<noteq> y" using a c by (cases l) auto
      qed
      then have "Suc k < length (c # rest) \<and> resolves ua ((c # rest) ! Suc k)
          \<and> uc_userId ((c # rest) ! Suc k) = x
          \<and> (\<forall>l\<le>Suc k. resolves ua ((c # rest) ! l) \<longrightarrow> uc_userId ((c # rest) ! l) \<noteq> y)"
        using k by simp
      then show ?thesis by blast
    qed
  qed
qed

lemma split_at_two:
  assumes "i < j" and "j < length xs"
  shows "\<exists>as bs cs. xs = as @ xs ! i # bs @ xs ! j # cs"
proof -
  have "xs = take j xs @ xs ! j # drop (Suc j) xs" using assms(2) by (rule id_take_nth_drop)
  moreover have "take j xs = take i (take j xs) @ take j xs ! i # drop (Suc i) (take j xs)"
    using assms by (intro id_take_nth_drop) simp
  moreover have "take j xs ! i = xs ! i" using assms by simp
  ultimately have "xs = take i (take j xs) @ xs ! i # drop (Suc i) (take j xs) @ xs ! j # drop (Suc j) xs"
    by (metis append.assoc append_Cons)
  then show ?thesis by blast
qed

lemma filter_eq_append_ConsD:
  "filter P xs = as @ x # rest \<Longrightarrow> \<exists>us vs. xs = us @ x # vs \<and> filter P vs = rest"
proof (induction as arbitrary: xs)
  case Nil
  then show ?case using filter_eq_ConsD [of P xs x rest] by auto
next
  case (Cons a as)
  then have "filter P xs = a # (as @ x # rest)" by simp
  then obtain us vs where 1: "xs = us @ a # vs" "as @ x # rest = filter P vs"
    using filter_eq_ConsD [of P xs a "as @ x # rest"] by blast
  obtain us' vs' where 2: "vs = us' @ x # vs'" "filter P vs' = rest"
    using Cons.IH [of vs] 1(2) by auto
  have "xs = (us @ a # us') @ x # vs'" using 1(1) 2(1) by simp
  then show ?case using 2(2) by blast
qed

lemma filter_two:
  assumes "filter P xs = as @ x # bs @ y # cs"
  shows "\<exists>as' bs' cs'. xs = as' @ x # bs' @ y # cs'"
proof -
  obtain u1 v1 where 1: "xs = u1 @ x # v1" "filter P v1 = bs @ y # cs"
    using filter_eq_append_ConsD [OF assms] by blast
  obtain u2 v2 where 2: "v1 = u2 @ y # v2"
    using filter_eq_append_ConsD [OF 1(2)] by blast
  show ?thesis using 1(1) 2 by blast
qed

lemma sort_key_ties_keep_order:
  assumes "i < j" and "j < length (sort_key f xs)"
    and "f (sort_key f xs ! i) = f (sort_key f xs ! j)"
  shows "\<exists>as bs cs. xs = as @ sort_key f xs ! i # bs @ sort_key f xs ! j # cs"
proof -
  let ?s = "sort_key f xs" and ?v = "f (sort_key f xs ! j)"
  obtain as bs cs where s: "?s = as @ ?s ! i # bs @ ?s ! j # cs"
    using split_at_two [OF assms(1,2)] by blast
  have "filter (\<lambda>y. f y = ?v) ?s =
          filter (\<lambda>y. f y = ?v) as @ ?s ! i # filter (\<lambda>y. f y = ?v) bs @ ?s ! j #
            filter (\<lambda>y. f y = ?v) cs"
    by (subst s) (simp add: assms(3))
  then have "filter (\<lambda>y. f y = ?v) xs =
          filter (\<lambda>y. f y = ?v) as @ ?s ! i # filter (\<lambda>y. f y = ?v) bs @ ?s ! j #
            filter (\<lambda>y. f y = ?v) cs"
    by (simp only: sort_key_stable)
  then show ?thesis by (rule filter_two)
qed

section \<open>Sums of latencies are exact\<close>

lemma latencies_groupItems:
  "map (\<lambda>e. c_completedAt e - c_createdAt e) (groupItems fd ua ucs u) = latencies ua ucs u"
  by (induction ucs) (auto simp: groupItems_def latencies_def split: option.splits)

lemma fold_latencies_exact:
  assumes "\<bar>s\<bar> + sum_list (map (\<lambda>e. \<bar>c_completedAt e - c_createdAt e\<bar>) cs) \<le> 2 ^ 53"
  shows "foldl (\<lambda>sum c. num_add sum (num_sub (getTime (c_completedAt c)) (getTime (c_createdAt c))))
           (of_int s) cs
         = of_int (s + sum_list (map (\<lambda>e. c_completedAt e - c_createdAt e) cs))"
  using assms
proof (induction cs arbitrary: s)
  case Nil
  then show ?case by simp
next
  case (Cons c cs)
  let ?d = "c_completedAt c - c_createdAt c"
  have pos: "0 \<le> sum_list (map (\<lambda>e. \<bar>c_completedAt e - c_createdAt e\<bar>) cs)"
    by (rule sum_list_nonneg) auto
  have d: "\<bar>?d\<bar> \<le> 2 ^ 53" using Cons.prems pos by simp
  have sd: "\<bar>s + ?d\<bar> \<le> 2 ^ 53" using Cons.prems pos by simp
  have 1: "num_sub (getTime (c_completedAt c)) (getTime (c_createdAt c)) = of_int ?d"
    using fl_of_int [OF d] by (simp add: num_sub_def getTime_def)
  have 2: "num_add (of_int s) (of_int ?d) = of_int (s + ?d)"
    using fl_of_int [OF sd] by (simp add: num_add_def)
  have "\<bar>s + ?d\<bar> + sum_list (map (\<lambda>e. \<bar>c_completedAt e - c_createdAt e\<bar>) cs) \<le> 2 ^ 53"
    using Cons.prems by simp
  from Cons.IH [OF this]
  have "foldl (\<lambda>sum c. num_add sum (num_sub (getTime (c_completedAt c)) (getTime (c_createdAt c))))
           (of_int (s + ?d)) cs
         = of_int (s + ?d + sum_list (map (\<lambda>e. c_completedAt e - c_createdAt e) cs))" .
  moreover have "s + ?d + sum_list (map (\<lambda>e. c_completedAt e - c_createdAt e) cs)
      = s + sum_list (map (\<lambda>e. c_completedAt e - c_createdAt e) (c # cs))"
    by simp
  ultimately show ?case by (simp only: foldl_Cons 1 2)
qed

lemma totalTimeMs_exact:
  assumes "sum_list (map (\<lambda>e. \<bar>c_completedAt e - c_createdAt e\<bar>) cs) \<le> 2 ^ 53"
  shows "totalTimeMs cs = of_int (sum_list (map (\<lambda>e. c_completedAt e - c_createdAt e) cs))"
  using fold_latencies_exact [of 0 cs] assms by (simp add: totalTimeMs_def)

section \<open>Completing an assignment, one request at a time\<close>

lemma find_pair_None:
  "find (\<lambda>r. ca_assignmentId r = a \<and> ca_userId r = u) rows = None \<longleftrightarrow>
     (a, u) \<notin> set (map (\<lambda>r. (ca_assignmentId r, ca_userId r)) rows)"
  by (induction rows) auto

lemma completeAssignment_preserves:
  assumes "uniqueCompletions db"
  shows "uniqueCompletions (snd (completeAssignment a u now db))"
proof (cases "selectExistingCompletion a u db")
  case None
  then have "(a, u) \<notin> set (map (\<lambda>r. (ca_assignmentId r, ca_userId r)) (db_completedAssignments db))"
    by (simp add: selectExistingCompletion_def find_pair_None)
  then show ?thesis using assms None
    by (auto simp: completeAssignment_def completeAssignment_after_def insertCompletedAssignment_def
        updateUserRank_def uniqueCompletions_def Let_def)
next
  case (Some r)
  then show ?thesis using assms
    by (simp add: completeAssignment_def completeAssignment_after_def)
qed

lemma completeAssignment_twice:
  assumes "completeAssignment a u t1 db = (Inr (Completed c x y), db1)"
  shows "completeAssignment a u t2 db1 = (Inr AlreadyCompleted, db1)"
proof -
  have "db_completedAssignments db1 = db_completedAssignments db @ [c]"
    and "ca_assignmentId c = a" and "ca_userId c = u"
    using assms
    by (auto simp: completeAssignment_def completeAssignment_after_def
        insertCompletedAssignment_def updateUserRank_def Let_def
        split: option.splits if_splits)
  then have "selectExistingCompletion a u db1 \<noteq> None"
    by (auto simp: selectExistingCompletion_def find_None_iff)
  then show ?thesis
    by (auto simp: completeAssignment_def completeAssignment_after_def)
qed

section \<open>The worked example, evaluated\<close>

lemma ex_result:
  "getUnitRankings ex_formatDistance ex_assignments ex_completions = Inr ex_rankings"
  by code_simp

lemma ex_length: "length ex_rankings = 3"
  by (simp add: ex_rankings_def)

lemma ex2_result:
  "getUnitRankings ex_formatDistance ex2_assignments ex2_completions = Inr ex2_rankings"
  by code_simp

lemma ex3_result:
  "getUnitRankings ex_formatDistance ex3_assignments ex3_completions = Inl RangeError"
  by code_simp

lemma ex2_latencies: "latencies ex2_assignments ex2_completions 7 = [1000, 1000, 2000]"
  by (simp add: latencies_def ex2_assignments_def ex2_completions_def ex_assignment_def
      ex_completion_def)

section \<open>Ordering, positions and the empty unit\<close>

text \<open>
  C1. The sequence returned by \<open>getUnitRankings\<close> is sorted ascending by average
  completion latency (the field \<open>totalMilliseconds\<close> holds \<open>avgTimeMs\<close>): each entry's
  average is at most the next entry's.
\<close>

theorem getUnitRankings_sorted:
  assumes "getUnitRankings fd ua ucs = Inr rs" and "i + 1 < length rs"
  shows "totalMilliseconds (rs ! i) \<le> totalMilliseconds (rs ! (i + 1))"
  using assms(1)
proof (cases rule: getUnitRankings_cases)
  case empty
  then show ?thesis using assms(2) by simp
next
  case (ranked m rankings)
  let ?s = "sort_key totalMilliseconds rankings"
  have len: "length rs = length ?s" using ranked by simp
  have s: "sorted (map totalMilliseconds ?s)" by (rule sorted_sort_key)
  have "map totalMilliseconds ?s ! i \<le> map totalMilliseconds ?s ! (i + 1)"
    using s assms(2) len by (intro sorted_nth_mono) simp_all
  then show ?thesis using assms(2) len ranked(4) by (simp add: nth_assignPositions)
qed

theorem getUnitRankings_sorted_witness:
  "getUnitRankings ex_formatDistance ex_assignments ex_completions = Inr ex_rankings
     \<and> 1 + 1 < length ex_rankings
     \<and> totalMilliseconds (ex_rankings ! 1) \<le> totalMilliseconds (ex_rankings ! (1 + 1))"
proof -
  have l: "1 + 1 < length ex_rankings" by (simp add: ex_length)
  show ?thesis using ex_result l getUnitRankings_sorted [OF ex_result l] by blast
qed

text \<open>
  C3. In every result of \<open>getUnitRankings\<close> the entry at index \<open>i\<close> has position
  \<open>i + 1\<close>: the positions are 1, 2, ..., N in order, whatever the averages are.
\<close>

theorem getUnitRankings_positions:
  assumes "getUnitRankings fd ua ucs = Inr rs" and "i < length rs"
  shows "position (rs ! i) = Some (i + 1)"
  using assms(1)
proof (cases rule: getUnitRankings_cases)
  case empty
  then show ?thesis using assms(2) by simp
next
  case (ranked m rankings)
  then show ?thesis using assms(2) by (simp add: nth_assignPositions)
qed

theorem getUnitRankings_positions_witness:
  "getUnitRankings ex_formatDistance ex_assignments ex_completions = Inr ex_rankings
     \<and> 2 < length ex_rankings
     \<and> position (ex_rankings ! 2) = Some (2 + 1)"
proof -
  have l: "2 < length ex_rankings" by (simp add: ex_length)
  show ?thesis using ex_result l getUnitRankings_positions [OF ex_result l] by blast
qed

text \<open>
  C6. When the assignment set of the unit is empty, \<open>getUnitRankings\<close> returns the empty
  sequence, whatever the completions are, and this is a result, not an error.
\<close>

theorem getUnitRankings_empty_unit: "getUnitRankings fd [] ucs = Inr []"
  by (simp add: getUnitRankings_def)

section \<open>Grouping: one entry per user, unresolved completions dropped\<close>



text \<open>
  C5. A completion whose assignment id is not in the fetched assignment set is skipped
  without an error: its turn of the loop neither throws nor changes the map, and the
  outcome of \<open>getUnitRankings\<close> is the outcome computed without it, so whenever the
  run without it returns its entries, the run with it returns the same entries.
\<close>

theorem getUnitRankings_skips_unresolved:
  assumes "\<not> resolves ua c"
  shows "groupStep fd ua c m = Inr m
         \<and> getUnitRankings fd ua (xs @ c # ys) = getUnitRankings fd ua (xs @ ys)
         \<and> (\<forall>rs. getUnitRankings fd ua (xs @ ys) = Inr rs \<longrightarrow>
               getUnitRankings fd ua (xs @ c # ys) = Inr rs)"
proof -
  have s: "groupStep fd ua c m = Inr m" for m
    using assms by (rule groupStep_unresolved)
  have "groupLoop fd ua (xs @ c # ys) [] = groupLoop fd ua (xs @ ys) []"
    by (simp add: groupLoop_append s split: sum.splits)
  then have "getUnitRankings fd ua (xs @ c # ys) = getUnitRankings fd ua (xs @ ys)"
    by (simp add: getUnitRankings_def)
  then show ?thesis using s by simp
qed

theorem getUnitRankings_skips_unresolved_witness:
  "\<not> resolves ex_assignments (ex_completion 6 5 1000)
     \<and> getUnitRankings ex_formatDistance ex_assignments
           ([ex_completion 7 1 7200000, ex_completion 8 2 5400000] @
            [ex_completion 7 2 5400000, ex_completion 9 1 1800000, ex_completion 7 3 9000000,
             ex_completion 7 4 12600001]) = Inr ex_rankings"
proof -
  have h: "\<not> resolves ex_assignments (ex_completion 6 5 1000)"
    by (simp add: resolves_def ex_assignments_def ex_assignment_def ex_completion_def)
  have e: "ex_completions =
             [ex_completion 7 1 7200000, ex_completion 8 2 5400000] @ ex_completion 6 5 1000 #
             [ex_completion 7 2 5400000, ex_completion 9 1 1800000, ex_completion 7 3 9000000,
              ex_completion 7 4 12600001]"
    by (simp add: ex_completions_def)
  show ?thesis
    using h ex_result
      getUnitRankings_skips_unresolved [OF h, where fd = ex_formatDistance
        and xs = "[ex_completion 7 1 7200000, ex_completion 8 2 5400000]"
        and ys = "[ex_completion 7 2 5400000, ex_completion 9 1 1800000, ex_completion 7 3 9000000,
          ex_completion 7 4 12600001]"]
    unfolding e by simp
qed

section \<open>Recent completions\<close>

text \<open>
  C7. For every entry, \<open>recentCompletions\<close> has length min(3, completion count); it is
  the first three of the user's group sorted by completion time, latest first; and each of
  its elements is the object pushed for one of that user's resolved completions, carrying
  \<open>formatDistance\<close> of that completion's time and its assignment's creation time.
\<close>

theorem getUnitRankings_recent:
  assumes "getUnitRankings fd ua ucs = Inr rs" and "r \<in> set rs"
  shows "length (recentCompletions r) = min 3 (completedAssignments r)
         \<and> recentCompletions r =
             take 3 (sort_key (\<lambda>e. - c_completedAt e) (groupItems fd ua ucs (userId r)))
         \<and> (\<forall>i j. i < j \<and> j < length (recentCompletions r) \<longrightarrow>
               c_completedAt (recentCompletions r ! j) \<le> c_completedAt (recentCompletions r ! i))
         \<and> (\<forall>e \<in> set (recentCompletions r). \<exists>c a. c \<in> set ucs \<and> uc_userId c = userId r
               \<and> find (\<lambda>a. a_id a = uc_assignmentId c) ua = Some a
               \<and> c_assignmentId e = uc_assignmentId c \<and> c_completedAt e = uc_completedAt c
               \<and> c_createdAt e = a_createdAt a \<and> c_title e = a_title a
               \<and> c_completionTime e = fd (uc_completedAt c) (a_createdAt a))"
proof -
  let ?g = "groupItems fd ua ucs (userId r)"
  let ?s = "sort_key (\<lambda>e. - c_completedAt e) ?g"
  note e = getUnitRankings_entry [OF assms]
  have rc: "recentCompletions r = take 3 ?s" using e by simp
  have 1: "length (recentCompletions r) = min 3 (completedAssignments r)"
    using e by (simp add: min.commute)
  have "sorted (map (\<lambda>e. - c_completedAt e) (take 3 ?s))"
    using sorted_sort_key [of "\<lambda>e. - c_completedAt e" ?g]
    by (simp add: take_map [symmetric] del: sorted_sort_key)
  then have srt: "sorted (map (\<lambda>e. - c_completedAt e) (recentCompletions r))" using rc by simp
  have 3: "\<forall>i j. i < j \<and> j < length (recentCompletions r) \<longrightarrow>
               c_completedAt (recentCompletions r ! j) \<le> c_completedAt (recentCompletions r ! i)"
  proof (intro allI impI)
    fix i j
    assume h: "i < j \<and> j < length (recentCompletions r)"
    then have "map (\<lambda>e. - c_completedAt e) (recentCompletions r) ! i
                 \<le> map (\<lambda>e. - c_completedAt e) (recentCompletions r) ! j"
      using srt by (intro sorted_nth_mono) simp_all
    then show "c_completedAt (recentCompletions r ! j) \<le> c_completedAt (recentCompletions r ! i)"
      using h by simp
  qed
  have "set (recentCompletions r) \<subseteq> set ?g"
    using rc set_take_subset [of 3 ?s] by simp
  then have 4: "\<forall>e \<in> set (recentCompletions r). \<exists>c a. c \<in> set ucs \<and> uc_userId c = userId r
               \<and> find (\<lambda>a. a_id a = uc_assignmentId c) ua = Some a
               \<and> c_assignmentId e = uc_assignmentId c \<and> c_completedAt e = uc_completedAt c
               \<and> c_createdAt e = a_createdAt a \<and> c_title e = a_title a
               \<and> c_completionTime e = fd (uc_completedAt c) (a_createdAt a)"
    using groupItems_origin [of _ fd ua ucs "userId r"] by blast
  show ?thesis using 1 rc 3 4 by blast
qed

theorem getUnitRankings_recent_witness:
  "getUnitRankings ex_formatDistance ex_assignments ex_completions = Inr ex_rankings
     \<and> ex_rankings ! 2 \<in> set ex_rankings
     \<and> completedAssignments (ex_rankings ! 2) = 4
     \<and> length (recentCompletions (ex_rankings ! 2)) = min 3 (completedAssignments (ex_rankings ! 2))
     \<and> map c_completedAt (recentCompletions (ex_rankings ! 2)) = [12600001, 9000000, 7200000]"
proof -
  have m: "ex_rankings ! 2 \<in> set ex_rankings" by (simp add: ex_rankings_def)
  have c: "completedAssignments (ex_rankings ! 2) = 4" by (simp add: ex_rankings_def)
  have t: "map c_completedAt (recentCompletions (ex_rankings ! 2)) = [12600001, 9000000, 7200000]"
    by (simp add: ex_rankings_def ex_item_def)
  show ?thesis using ex_result m c t getUnitRankings_recent [OF ex_result m] by blast
qed

section \<open>Ties\<close>

text \<open>
  C10. \<open>getUnitRankings\<close> is a function of its inputs, so two runs on the same inputs
  return the same result; and when two entries have the same average, the user of the earlier
  entry has a resolved completion in the input before any resolved completion of the user
  of the later entry: ties are ordered by each user's first resolved completion.
\<close>

theorem getUnitRankings_ties:
  assumes "getUnitRankings fd ua ucs = Inr rs" and "i < j" and "j < length rs"
    and "totalMilliseconds (rs ! i) = totalMilliseconds (rs ! j)"
  shows "(\<forall>rs'. getUnitRankings fd ua ucs = Inr rs' \<longrightarrow> rs' = rs)
         \<and> (\<exists>k<length ucs. resolves ua (ucs ! k) \<and> uc_userId (ucs ! k) = userId (rs ! i)
              \<and> (\<forall>l\<le>k. resolves ua (ucs ! l) \<longrightarrow> uc_userId (ucs ! l) \<noteq> userId (rs ! j)))"
proof -
  have det: "\<forall>rs'. getUnitRankings fd ua ucs = Inr rs' \<longrightarrow> rs' = rs" using assms(1) by simp
  have "\<exists>k<length ucs. resolves ua (ucs ! k) \<and> uc_userId (ucs ! k) = userId (rs ! i)
          \<and> (\<forall>l\<le>k. resolves ua (ucs ! l) \<longrightarrow> uc_userId (ucs ! l) \<noteq> userId (rs ! j))"
    using assms(1)
  proof (cases rule: getUnitRankings_cases)
    case empty
    then show ?thesis using assms(3) by simp
  next
    case (ranked m rankings)
    let ?L = "rankings"
    let ?S = "sort_key totalMilliseconds ?L"
    have len: "length rs = length ?S" using ranked(4) by simp
    have i: "i < length ?S" and j: "j < length ?S" using assms(2,3) len by simp_all
    have fi: "userId (rs ! i) = userId (?S ! i)" "totalMilliseconds (rs ! i) = totalMilliseconds (?S ! i)"
      using ranked(4) i by (simp_all add: nth_assignPositions)
    have fj: "userId (rs ! j) = userId (?S ! j)" "totalMilliseconds (rs ! j) = totalMilliseconds (?S ! j)"
      using ranked(4) j by (simp_all add: nth_assignPositions)
    have "totalMilliseconds (?S ! i) = totalMilliseconds (?S ! j)" using assms(4) fi fj by simp
    then obtain as bs cs where L: "?L = as @ ?S ! i # bs @ ?S ! j # cs"
      using sort_key_ties_keep_order [OF assms(2) j] by blast
    have "keysAfter ua [] ucs = map userId ?L"
      using groupLoop_userIds [OF ranked(2,3)] by simp
    also have "\<dots> = map userId as @ userId (?S ! i) # map userId bs @ userId (?S ! j) # map userId cs"
      by (subst L) simp
    finally have K: "keysAfter ua [] ucs =
        map userId as @ userId (rs ! i) # map userId bs @ userId (rs ! j) # map userId cs"
      using fi fj by simp
    show ?thesis using keysAfter_order [OF _ K] by simp
  qed
  then show ?thesis using det by blast
qed

theorem getUnitRankings_ties_witness:
  "getUnitRankings ex_formatDistance ex_assignments ex_completions = Inr ex_rankings
     \<and> (0::nat) < 1 \<and> 1 < length ex_rankings
     \<and> totalMilliseconds (ex_rankings ! 0) = totalMilliseconds (ex_rankings ! 1)
     \<and> (\<exists>k. k < length ex_completions \<and> resolves ex_assignments (ex_completions ! k)
           \<and> uc_userId (ex_completions ! k) = userId (ex_rankings ! 0)
           \<and> uc_userId (ex_completions ! k) \<noteq> userId (ex_rankings ! 1))"
proof -
  have o: "(0::nat) < 1" by simp
  have l: "1 < length ex_rankings" by (simp add: ex_length)
  have t: "totalMilliseconds (ex_rankings ! 0) = totalMilliseconds (ex_rankings ! 1)"
    by (simp add: ex_rankings_def)
  show ?thesis using ex_result o l t getUnitRankings_ties [OF ex_result o l t] by blast
qed

section \<open>The average\<close>

text \<open>
  C2, as stated: the reported average is the sum of the user's latencies divided exactly
  by their number. It is not: the division is the division of doubles, and for latencies
  of 1000, 1000 and 2000 ms the entry holds the double nearest to 4000/3.
\<close>

theorem getUnitRankings_average_counterexample:
  "getUnitRankings ex_formatDistance ex2_assignments ex2_completions = Inr ex2_rankings
     \<and> userId (ex2_rankings ! 0) = 7
     \<and> latencies ex2_assignments ex2_completions 7 = [1000, 1000, 2000]
     \<and> totalMilliseconds (ex2_rankings ! 0)
         \<noteq> of_int (sum_list (latencies ex2_assignments ex2_completions 7))
           / of_nat (length (latencies ex2_assignments ex2_completions 7))"
  by (simp add: ex2_result ex2_latencies) (simp add: ex2_rankings_def)

text \<open>
  C2, amended. For every entry whose user's latencies add up, in absolute value, to at
  most 2^53 ms, the sum is computed exactly and the reported average is that sum divided
  by the number of completions and rounded once to the nearest double: it differs from
  the exact quotient by at most the quotient's 2^-53 part.
\<close>

theorem getUnitRankings_average:
  assumes "getUnitRankings fd ua ucs = Inr rs" and "r \<in> set rs"
    and "sum_list (map abs (latencies ua ucs (userId r))) \<le> 2 ^ 53"
  shows "0 < length (latencies ua ucs (userId r))
         \<and> completedAssignments r = length (latencies ua ucs (userId r))
         \<and> totalMilliseconds r =
             fl (of_int (sum_list (latencies ua ucs (userId r)))
                 / of_nat (length (latencies ua ucs (userId r))))
         \<and> \<bar>totalMilliseconds r
              - of_int (sum_list (latencies ua ucs (userId r)))
                / of_nat (length (latencies ua ucs (userId r)))\<bar>
            \<le> \<bar>of_int (sum_list (latencies ua ucs (userId r)))
                / of_nat (length (latencies ua ucs (userId r)))\<bar> / 2 ^ 53"
proof -
  let ?g = "groupItems fd ua ucs (userId r)" and ?L = "latencies ua ucs (userId r)"
  note e = getUnitRankings_entry [OF assms(1,2)]
  have L: "map (\<lambda>e. c_completedAt e - c_createdAt e) ?g = ?L" by (rule latencies_groupItems)
  then have len: "length ?g = length ?L" using length_map by metis
  have "userId r \<in> set (map userId rs)" using assms(2) by simp
  then have "userId r \<in> set (keysAfter ua [] ucs)"
    using getUnitRankings_userIds [OF assms(1)] by (metis set_mset_mset)
  then have "filter (\<lambda>c. uc_userId c = userId r \<and> resolves ua c) ucs \<noteq> []"
    by (auto simp: keysAfter_set filter_empty_conv)
  then have "0 < length (filter (\<lambda>c. uc_userId c = userId r \<and> resolves ua c) ucs)"
    by simp
  then have "0 < length ?g" by (simp only: length_groupItems)
  then have pos: "0 < length ?L" using len by simp
  have "map (\<lambda>e. \<bar>c_completedAt e - c_createdAt e\<bar>) ?g = map abs ?L"
    by (subst L [symmetric]) (simp add: comp_def)
  then have "sum_list (map (\<lambda>e. \<bar>c_completedAt e - c_createdAt e\<bar>) ?g) \<le> 2 ^ 53"
    using assms(3) by simp
  then have "totalTimeMs ?g = of_int (sum_list ?L)" using totalTimeMs_exact L by simp
  then have t: "totalMilliseconds r = fl (of_int (sum_list ?L) / of_nat (length ?L))"
    using e pos len by (simp add: num_div_def)
  have c: "completedAssignments r = length ?L" using e len by simp
  show ?thesis using pos c t fl_close [of "of_int (sum_list ?L) / of_nat (length ?L)"] by simp
qed

theorem getUnitRankings_average_witness:
  "getUnitRankings ex_formatDistance ex2_assignments ex2_completions = Inr ex2_rankings
     \<and> ex2_rankings ! 0 \<in> set ex2_rankings
     \<and> sum_list (map abs (latencies ex2_assignments ex2_completions (userId (ex2_rankings ! 0))))
         \<le> 2 ^ 53
     \<and> totalMilliseconds (ex2_rankings ! 0)
         = fl (of_int (sum_list (latencies ex2_assignments ex2_completions
                                   (userId (ex2_rankings ! 0))))
               / of_nat (length (latencies ex2_assignments ex2_completions
                                   (userId (ex2_rankings ! 0)))))"
proof -
  have m: "ex2_rankings ! 0 \<in> set ex2_rankings" by (simp add: ex2_rankings_def)
  have u: "userId (ex2_rankings ! 0) = 7" by (simp add: ex2_rankings_def)
  have b: "sum_list (map abs (latencies ex2_assignments ex2_completions
                               (userId (ex2_rankings ! 0)))) \<le> 2 ^ 53"
    by (simp add: u ex2_latencies)
  show ?thesis using ex2_result m b getUnitRankings_average [OF ex2_result m b] by blast
qed

section \<open>The stored rank, and the uniqueness of completions\<close>

text \<open>
  C9. Nothing in the ranking logic writes \<open>users.rank\<close>: \<open>getUnitRankings\<close> leaves
  the database as it is, \<open>updateUserRank\<close> does nothing, and \<open>completeAssignment\<close>
  leaves the table of users, and with it every stored rank, unchanged.
\<close>

theorem ranking_leaves_rank:
  "snd (getUnitRankings_db fd deliverA deliverC unitCode db) = db
   \<and> updateUserRank userId' db = db
   \<and> db_users (snd (completeAssignment assignmentId userId' now db)) = db_users db
   \<and> map u_rank (db_users (snd (completeAssignment assignmentId userId' now db)))
       = map u_rank (db_users db)"
proof -
  have "db_users (snd (completeAssignment assignmentId userId' now db)) = db_users db"
    by (auto simp: completeAssignment_def completeAssignment_after_def
        insertCompletedAssignment_def updateUserRank_def Let_def split: option.splits)
  then show ?thesis by (simp add: getUnitRankings_db_def updateUserRank_def)
qed

text \<open>
  C8. The table \<open>completed_assignments\<close> has no uniqueness constraint, and the check of
  \<open>completeAssignment\<close> is made before its insert: when two requests of user 7 for
  assignment 1 both run the check before either inserts, both inserts succeed and the
  table holds two rows for the pair.
\<close>

theorem concurrent_completions_duplicate:
  "uniqueCompletions ex_db
   \<and> selectExistingCompletion 1 7 ex_db = None
   \<and> map (\<lambda>r. (ca_assignmentId r, ca_userId r))
        (db_completedAssignments
          (snd (completeAssignment_after (selectExistingCompletion 1 7 ex_db) 1 7 2000
            (snd (completeAssignment_after (selectExistingCompletion 1 7 ex_db) 1 7 1000 ex_db)))))
       = [(1, 7), (1, 7)]
   \<and> \<not> uniqueCompletions
          (snd (completeAssignment_after (selectExistingCompletion 1 7 ex_db) 1 7 2000
            (snd (completeAssignment_after (selectExistingCompletion 1 7 ex_db) 1 7 1000 ex_db))))"
  by (simp add: selectExistingCompletion_def completeAssignment_after_def
      insertCompletedAssignment_def int4_def updateUserRank_def uniqueCompletions_def ex_db_def
      ex_user_def ex_assignment_def Let_def)

end
